theory Spec2Isabelle
  imports Main
begin

section \<open>JavaScript values used by the develop HTML route\<close>

text \<open>
  Strings are lists of 8-bit characters. An \<open>undefined\<close> value of a string-typed
  expression is \<open>None\<close>. Paths follow the POSIX flavour of Node's \<open>path\<close> module
  (\<open>path.sep\<close> is the slash).
\<close>

text \<open>\<open>s.split(sep)\<close> for a one-character separator: never the empty array.\<close>

fun split_on :: "char \<Rightarrow> string \<Rightarrow> string list" where
  "split_on sep [] = [[]]"
| "split_on sep (c # cs) =
     (if c = sep then [] # split_on sep cs
      else (case split_on sep cs of
              [] \<Rightarrow> [[c]]
            | w # ws \<Rightarrow> (c # w) # ws))"

text \<open>
  The result of \<open>Number(v)\<close>: \<open>undefined\<close> is NaN; a string is trimmed of white space,
  the empty string is 0, a string of at most 15 decimal digits is that integer (exactly
  representable), and a string that is not a numeric literal of the language
  (\<open>StrNumericLiteral\<close>: an optionally signed decimal literal or \<open>Infinity\<close>, or an
  unsigned binary, octal or hexadecimal integer) is NaN. The value of every other
  numeric literal, and of a string with a character outside ASCII, is kept
  uninterpreted: it plays no part below.
\<close>

datatype jsnum = JNaN | JNum nat | JUninterpreted string

definition is_js_space :: "char \<Rightarrow> bool" where
  "is_js_space c =
     (c = CHR '' '' \<or> c = CHR 0x09 \<or> c = CHR 0x0A \<or> c = CHR 0x0B \<or> c = CHR 0x0C \<or> c = CHR 0x0D)"

definition js_trim :: "string \<Rightarrow> string" where
  "js_trim s = rev (dropWhile is_js_space (rev (dropWhile is_js_space s)))"

definition is_digit :: "char \<Rightarrow> bool" where
  "is_digit c = (48 \<le> (of_char c :: nat) \<and> (of_char c :: nat) \<le> 57)"

definition is_bin_digit :: "char \<Rightarrow> bool" where
  "is_bin_digit c = (c = CHR ''0'' \<or> c = CHR ''1'')"

definition is_oct_digit :: "char \<Rightarrow> bool" where
  "is_oct_digit c = (48 \<le> (of_char c :: nat) \<and> (of_char c :: nat) \<le> 55)"

definition is_hex_digit :: "char \<Rightarrow> bool" where
  "is_hex_digit c =
     (is_digit c \<or> (97 \<le> (of_char c :: nat) \<and> (of_char c :: nat) \<le> 102)
      \<or> (65 \<le> (of_char c :: nat) \<and> (of_char c :: nat) \<le> 70))"

definition digits1 :: "(char \<Rightarrow> bool) \<Rightarrow> string \<Rightarrow> bool" where
  "digits1 p s = (s \<noteq> [] \<and> list_all p s)"

definition strip_sign :: "string \<Rightarrow> string" where
  "strip_sign s =
     (case s of
        [] \<Rightarrow> []
      | c # cs \<Rightarrow> if c = CHR ''+'' \<or> c = CHR ''-'' then cs else s)"

definition is_exponent_opt :: "string \<Rightarrow> bool" where
  "is_exponent_opt s =
     (case s of
        [] \<Rightarrow> True
      | c # cs \<Rightarrow> (c = CHR ''e'' \<or> c = CHR ''E'') \<and> digits1 is_digit (strip_sign cs))"

definition is_unsigned_decimal :: "string \<Rightarrow> bool" where
  "is_unsigned_decimal s =
     (s = ''Infinity'' \<or>
      (let ip = takeWhile is_digit s; r = dropWhile is_digit s
       in case r of
            [] \<Rightarrow> ip \<noteq> []
          | c # cs \<Rightarrow>
              if c = CHR ''.''
              then (ip \<noteq> [] \<or> takeWhile is_digit cs \<noteq> []) \<and> is_exponent_opt (dropWhile is_digit cs)
              else ip \<noteq> [] \<and> is_exponent_opt r))"

definition is_non_decimal :: "string \<Rightarrow> bool" where
  "is_non_decimal s =
     (case s of
        c0 # c1 # ds \<Rightarrow>
          c0 = CHR ''0'' \<and>
          (((c1 = CHR ''x'' \<or> c1 = CHR ''X'') \<and> digits1 is_hex_digit ds) \<or>
           ((c1 = CHR ''o'' \<or> c1 = CHR ''O'') \<and> digits1 is_oct_digit ds) \<or>
           ((c1 = CHR ''b'' \<or> c1 = CHR ''B'') \<and> digits1 is_bin_digit ds))
      | _ \<Rightarrow> False)"

definition is_StrNumericLiteral :: "string \<Rightarrow> bool" where
  "is_StrNumericLiteral t = (is_non_decimal t \<or> is_unsigned_decimal (strip_sign t))"

fun decimal :: "nat \<Rightarrow> string \<Rightarrow> nat" where
  "decimal acc [] = acc"
| "decimal acc (c # cs) = decimal (10 * acc + (of_char c - 48)) cs"

definition js_Number :: "string option \<Rightarrow> jsnum" where
  "js_Number v =
     (case v of
        None \<Rightarrow> JNaN
      | Some s \<Rightarrow>
          (let t = js_trim s in
           if list_ex (\<lambda>c. 128 \<le> (of_char c :: nat)) s then JUninterpreted s
           else if t = [] then JNum 0
           else if list_all is_digit t \<and> length t \<le> 15 then JNum (decimal 0 t)
           else if is_StrNumericLiteral t then JUninterpreted t
           else JNaN))"

section \<open>Node's \<open>path.join\<close>\<close>

definition join_sep :: "string list \<Rightarrow> string" where
  "join_sep segs = (case segs of [] \<Rightarrow> [] | s # ss \<Rightarrow> s @ concat (map (\<lambda>t. CHR ''/'' # t) ss))"

text \<open>
  \<open>normalizeString\<close>: empty and \<open>.\<close> segments are skipped, \<open>..\<close> removes the last kept
  segment (unless that is itself \<open>..\<close> or nothing is kept, when it is kept for a
  relative path and dropped for an absolute one).
\<close>

fun normalizeString :: "bool \<Rightarrow> string list \<Rightarrow> string list \<Rightarrow> string list" where
  "normalizeString allowAboveRoot res [] = res"
| "normalizeString allowAboveRoot res (seg # segs) =
     (if seg = [] \<or> seg = ''.'' then normalizeString allowAboveRoot res segs
      else if seg = ''..'' then
        (if res \<noteq> [] \<and> last res \<noteq> ''..'' then normalizeString allowAboveRoot (butlast res) segs
         else if allowAboveRoot then normalizeString allowAboveRoot (res @ [''..'']) segs
         else normalizeString allowAboveRoot res segs)
      else normalizeString allowAboveRoot (res @ [seg]) segs)"

definition path_normalize :: "string \<Rightarrow> string" where
  "path_normalize p =
     (if p = [] then ''.''
      else
        (let isAbsolute = (hd p = CHR ''/'');
             trailingSeparator = (last p = CHR ''/'');
             q = join_sep (normalizeString (\<not> isAbsolute) [] (split_on CHR ''/'' p))
         in if q = [] then (if isAbsolute then ''/'' else if trailingSeparator then ''./'' else ''.'')
            else (if isAbsolute then ''/'' else []) @ q @ (if trailingSeparator then ''/'' else [])))"

definition path_join :: "string list \<Rightarrow> string" where
  "path_join args =
     (let parts = filter (\<lambda>a. a \<noteq> []) args
      in if parts = [] then ''.'' else path_normalize (join_sep parts))"

section \<open>The Error Translator: \<open>getPosition\<close>\<close>

text \<open>
  The two regular expressions of \<open>getPosition\<close>, \<open>/\(.+?\)$/\<close> and
  \<open>/(?:\()(.+?)(?:\))$/\<close>, accept the same strings: an opening parenthesis, one or more
  characters that are not line terminators, and a closing parenthesis that ends the
  string. The search starts at the leftmost opening parenthesis that works; the group is
  everything between it and the final parenthesis. Among 8-bit characters the line
  terminators are the line feed and the carriage return.
\<close>

definition is_line_terminator :: "char \<Rightarrow> bool" where
  "is_line_terminator c = (c = CHR 0x0A \<or> c = CHR 0x0D)"

definition dot_plus :: "string \<Rightarrow> bool" where
  "dot_plus b = (b \<noteq> [] \<and> list_ex is_line_terminator b = False)"

fun paren_match :: "string \<Rightarrow> string option" where
  "paren_match [] = None"
| "paren_match (c # cs) =
     (if c = CHR ''('' \<and> cs \<noteq> [] \<and> last cs = CHR '')'' \<and> dot_plus (butlast cs)
      then Some (butlast cs)
      else paren_match cs)"

definition paren_test :: "string \<Rightarrow> bool" where
  "paren_test s = (paren_match s \<noteq> None)"

text \<open>\<open>xs[xs.length - k]\<close>: \<open>undefined\<close> when the index is negative.\<close>

definition index_back :: "'a list \<Rightarrow> nat \<Rightarrow> 'a option" where
  "index_back xs k = (if 0 < k \<and> k \<le> length xs then Some (xs ! (length xs - k)) else None)"

record IErrorPosition =
  filename :: "string option"
  line :: jsnum
  row :: jsnum

text \<open>
  \<open>splitLine\<close> is \<open>None\<close> exactly where the source's \<open>try\<close> block throws (a \<open>null\<close> match,
  or \<open>stackObject[0]\<close> of an empty array); the \<open>catch\<close> then gives the soft-fail position.
\<close>

definition getPosition :: "string list \<Rightarrow> IErrorPosition" where
  "getPosition stackObject =
     (let filteredStack = filter paren_test stackObject;
          splitLine =
            (if filteredStack \<noteq> []
             then map_option (split_on CHR '':'') (paren_match (hd filteredStack))
             else (case stackObject of
                     [] \<Rightarrow> None
                   | s # _ \<Rightarrow> Some (split_on CHR '':'' s)))
      in case splitLine of
           None \<Rightarrow> \<lparr>filename = Some [], line = JNum 0, row = JNum 0\<rparr>
         | Some sl \<Rightarrow>
             \<lparr>filename = index_back sl 3,
              line = js_Number (index_back sl 2),
              row = js_Number (index_back sl 1)\<rparr>)"

section \<open>The Error Translator: \<open>parseError\<close>\<close>

text \<open>
  What \<open>parseError\<close> reads from its surroundings: \<open>program.directory\<close>, the file system
  behind \<open>fs.readFileSync\<close> (a path that is no readable file has no entry), the
  composition \<open>ansiHTML (codeFrameColumns (code, {start: {line, column}}, \<dots>))\<close> of the two
  library calls, taken as given, and \<open>process.env\<close>.
\<close>

record program =
  directory :: string
  files :: "string \<rightharpoonup> string"
  codeFrameHTML :: "string \<Rightarrow> jsnum \<Rightarrow> jsnum \<Rightarrow> string"
  process_env :: "string \<rightharpoonup> string"

text \<open>An error object: each property may be missing (\<open>undefined\<close>).\<close>

record js_error =
  err_stack :: "string option"
  err_message :: "string option"
  err_type :: "string option"
  err_name :: "string option"

text \<open>What a failing statement throws: a \<open>TypeError\<close> of the engine, or the file system's error.\<close>

datatype exn = TypeError | FsError string

record IParsedError =
  pe_filename :: string
  pe_code :: string
  pe_codeFrame :: string
  pe_line :: jsnum
  pe_row :: jsnum
  pe_message :: string
  pe_type :: "string option"
  pe_stack :: string

text \<open>\<open>v ? v : d\<close> on an optional string: \<open>undefined\<close> and the empty string are falsy.\<close>

definition truthy :: "string option \<Rightarrow> bool" where
  "truthy v = (case v of None \<Rightarrow> False | Some s \<Rightarrow> s \<noteq> [])"

text \<open>
  Lines 84 to 87: \<open>path.join (program.directory, ...position.filename.split (path.sep).slice (2))\<close>.
\<close>

definition reconstructFilename :: "string \<Rightarrow> string \<Rightarrow> string" where
  "reconstructFilename dir f = path_join (dir # drop 2 (split_on CHR ''/'' f))"

definition parseError :: "program \<Rightarrow> js_error \<Rightarrow> exn + IParsedError" where
  "parseError prog err =
     (let stack = (if truthy (err_stack err) then the (err_stack err) else []);
          stackObject = split_on CHR 0x0A stack;
          position = getPosition stackObject
      in case filename position of
           None \<Rightarrow> Inl TypeError
         | Some f \<Rightarrow>
             (let fname = reconstructFilename (directory prog) f
              in case files prog fname of
                   None \<Rightarrow> Inl (FsError fname)
                 | Some code \<Rightarrow>
                     Inr \<lparr>pe_filename = fname,
                          pe_code = code,
                          pe_codeFrame = codeFrameHTML prog code (line position) (row position),
                          pe_line = line position,
                          pe_row = row position,
                          pe_message =
                            last (if truthy (err_message err)
                                  then split_on CHR 0x0A (the (err_message err)) else [[]]),
                          pe_type = (if truthy (err_type err) then err_type err else err_name err),
                          pe_stack = stack\<rparr>))"

section \<open>The worker pool: \<open>render-dev-html.ts\<close>\<close>

text \<open>
  A \<open>JestWorker\<close> object is identified by the number of objects constructed before it.
  The trace lists, in order, what the module does: the pools it constructs, the calls of
  \<open>renderHTML\<close> and \<open>end\<close> on a pool, and the assignments to the module variable
  \<open>worker\<close>. \<open>in_flight\<close> holds the \<open>renderHTML\<close> calls whose promise has not settled yet.
\<close>

datatype render_arg = Warming | Job string string string

datatype pool_action = NewWorker nat | RenderCall nat render_arg | HandleSet nat | EndCall nat

record supervisor =
  worker :: "nat option"
  created :: nat
  in_flight :: "(nat \<times> render_arg) list"
  trace :: "pool_action list"

definition startWorker :: "supervisor \<Rightarrow> nat \<times> supervisor" where
  "startWorker s =
     (let newWorker = created s
      in (newWorker,
          s\<lparr>created := Suc newWorker,
            in_flight := in_flight s @ [(newWorker, Warming)],
            trace := trace s @ [NewWorker newWorker, RenderCall newWorker Warming]\<rparr>))"

definition initDevWorkerPool :: "supervisor \<Rightarrow> supervisor" where
  "initDevWorkerPool s =
     (case startWorker s of
        (w, s1) \<Rightarrow> s1\<lparr>worker := Some w, trace := trace s1 @ [HandleSet w]\<rparr>)"

text \<open>\<open>oldWorker.end ()\<close> on an undefined \<open>oldWorker\<close> throws, after the assignment.\<close>

definition restartWorker :: "supervisor \<Rightarrow> (exn + unit) \<times> supervisor" where
  "restartWorker s =
     (let oldWorker = worker s
      in case startWorker s of
           (newWorker, s1) \<Rightarrow>
             (let s2 = s1\<lparr>worker := Some newWorker, trace := trace s1 @ [HandleSet newWorker]\<rparr>
              in case oldWorker of
                   None \<Rightarrow> (Inl TypeError, s2)
                 | Some old \<Rightarrow> (Inr (), s2\<lparr>trace := trace s2 @ [EndCall old]\<rparr>)))"

text \<open>The promise of a \<open>renderHTML\<close> call settles: the call is no longer in flight.\<close>

definition call_settled :: "nat \<Rightarrow> render_arg \<Rightarrow> supervisor \<Rightarrow> supervisor" where
  "call_settled w a s = s\<lparr>in_flight := remove1 (w, a) (in_flight s)\<rparr>"

text \<open>
  A value that crosses the worker boundary. \<open>element0\<close> is \<open>v[0]\<close> (\<open>None\<close> where the
  property access throws).
\<close>

datatype jsval = JUndefined | JString string | JArray "jsval list"

fun element0 :: "jsval \<Rightarrow> jsval option" where
  "element0 JUndefined = None"
| "element0 (JString []) = Some JUndefined"
| "element0 (JString (c # cs)) = Some (JString [c])"
| "element0 (JArray []) = Some JUndefined"
| "element0 (JArray (v # vs)) = Some v"

text \<open>
  \<open>renderDevHTML\<close>: the state after the call has been issued, and how the returned promise
  settles (\<open>Inr\<close> resolved, \<open>Inl\<close> rejected), given how the pool's \<open>renderHTML\<close> promise
  settles. With no pool, \<open>worker.renderHTML\<close> throws inside the \<open>try\<close>.
\<close>

definition renderDevHTML ::
  "supervisor \<Rightarrow> string \<Rightarrow> string \<Rightarrow> string \<Rightarrow> (exn + jsval) \<Rightarrow> (exn + jsval) \<times> supervisor" where
  "renderDevHTML s path htmlComponentRendererPath dir settles =
     (case worker s of
        None \<Rightarrow> (Inl TypeError, s)
      | Some w \<Rightarrow>
          (let a = Job path htmlComponentRendererPath dir;
               s1 = s\<lparr>in_flight := in_flight s @ [(w, a)], trace := trace s @ [RenderCall w a]\<rparr>
           in case settles of
                Inr response \<Rightarrow> (Inr response, call_settled w a s1)
              | Inl error \<Rightarrow> (Inl error, call_settled w a s1)))"

section \<open>The Request Gate: \<open>createDevelopHTMLRoute\<close>\<close>

text \<open>
  The handler of \<open>app.get\<close> is an \<open>async\<close> function: it runs until an \<open>await\<close> and is
  resumed by the event loop once the awaited promise has been resolved. Each request is
  numbered by its arrival and is in one of these phases:
  \<^item> \<open>AwaitAck\<close>: suspended at the first \<open>await\<close> (line 144), the promise pending;
  \<^item> \<open>Acked\<close>: that promise resolved, the continuation not yet run;
  \<^item> \<open>Polling\<close>: the interval timer of line 154 armed, the second promise pending;
  \<^item> \<open>IdleSeen\<close>: the second promise resolved, the continuation not yet run;
  \<^item> \<open>Rendering\<close>: suspended at \<open>await renderHTML\<close> (line 167);
  \<^item> \<open>Returned\<close>: the handler has returned (through \<open>next ()\<close> or at its end);
  \<^item> \<open>Failed\<close>: an exception has left the handler (its promise is rejected).
  The log lists what the code does, in order: the calls it makes and the reads of
  \<open>program.developMachineService._state.value\<close>. The calls of \<open>console.log\<close> are left out.
\<close>

datatype phase = AwaitAck | Acked | Polling | IdleSeen | Rendering | Returned | Failed

datatype stage = DevelopHTML

record render_request =
  htmlComponentRendererPath :: string
  paths :: "string list"
  stage :: stage
  envVars :: "(string \<times> string) list"

datatype action =
    Next nat
  | Callback nat string
  | ResolveCalled nat
  | ListenerThrew exn
  | ReadState nat string
  | SetInterval nat
  | ClearInterval nat
  | ActivityStart nat
  | RenderHTML nat render_request
  | Respond nat nat "string option"
  | ActivityEnd nat
  | Escaped nat exn

record gate =
  outsideResolve :: "nat option"
  pages :: "string set"
  machine_state :: string
  requests :: "(string \<times> phase) list"
  log :: "action list"

definition phase_of :: "gate \<Rightarrow> nat \<Rightarrow> phase option" where
  "phase_of g rid = (if rid < length (requests g) then Some (snd (requests g ! rid)) else None)"

definition path_of :: "gate \<Rightarrow> nat \<Rightarrow> string" where
  "path_of g rid = fst (requests g ! rid)"

definition set_phase :: "nat \<Rightarrow> phase \<Rightarrow> gate \<Rightarrow> gate" where
  "set_phase rid ph g = g\<lparr>requests := (requests g)[rid := (path_of g rid, ph)]\<rparr>"

definition emit :: "action list \<Rightarrow> gate \<Rightarrow> gate" where
  "emit as g = g\<lparr>log := log g @ as\<rparr>"

text \<open>
  Lines 129 to 134, the listener given to \<open>onReceive\<close>. Calling the resolver of a promise
  that is already resolved changes nothing; calling \<open>undefined\<close> throws.
\<close>

definition listener :: "string \<Rightarrow> gate \<Rightarrow> gate" where
  "listener event_type g =
     (if event_type = ''SEND_DEVELOP_HTML_RESPONSES''
      then (case outsideResolve g of
              None \<Rightarrow> emit [ListenerThrew TypeError] g
            | Some rid \<Rightarrow>
                (if phase_of g rid = Some AwaitAck
                 then set_phase rid Acked (emit [ResolveCalled rid] g)
                 else emit [ResolveCalled rid] g))
      else g)"

text \<open>Lines 136 to 148: the handler up to its first \<open>await\<close>.\<close>

definition get_handler :: "string \<Rightarrow> gate \<Rightarrow> gate" where
  "get_handler req_path g =
     (let rid = length (requests g)
      in if req_path \<notin> pages g
         then emit [Next rid] (g\<lparr>requests := requests g @ [(req_path, Returned)]\<rparr>)
         else emit [Callback rid ''DEVELOP_HTML_REQUEST_RECEIVED'']
                (g\<lparr>outsideResolve := Some rid,
                   requests := requests g @ [(req_path, AwaitAck)]\<rparr>))"

text \<open>Lines 150 to 161: the executor of the second promise, run when the handler resumes.\<close>

definition after_ack :: "nat \<Rightarrow> gate \<Rightarrow> gate" where
  "after_ack rid g =
     (if machine_state g = ''waiting''
      then set_phase rid IdleSeen (emit [ReadState rid (machine_state g)] g)
      else set_phase rid Polling (emit [ReadState rid (machine_state g), SetInterval rid] g))"

text \<open>Lines 154 to 159: one firing of the interval timer.\<close>

definition interval_callback :: "nat \<Rightarrow> gate \<Rightarrow> gate" where
  "interval_callback rid g =
     (if machine_state g = ''waiting''
      then set_phase rid IdleSeen (emit [ReadState rid (machine_state g), ClearInterval rid] g)
      else emit [ReadState rid (machine_state g)] g)"

text \<open>\<open>process.env.K || ``\<close>.\<close>

definition env_or_empty :: "program \<Rightarrow> string \<Rightarrow> string" where
  "env_or_empty prog k = (case process_env prog k of None \<Rightarrow> [] | Some v \<Rightarrow> v)"

text \<open>Lines 163 to 179: the span is started and \<open>renderHTML\<close> is called.\<close>

definition render_request_of :: "program \<Rightarrow> string \<Rightarrow> render_request" where
  "render_request_of prog req_path =
     \<lparr>htmlComponentRendererPath = directory prog @ ''/public/render-page.js'',
      paths = [req_path],
      stage = DevelopHTML,
      envVars =
        [(''NODE_ENV'', env_or_empty prog ''NODE_ENV''),
         (''gatsby_executing_command'', env_or_empty prog ''gatsby_executing_command''),
         (''gatsby_log_level'', env_or_empty prog ''gatsby_log_level'')]\<rparr>"

definition after_idle :: "program \<Rightarrow> nat \<Rightarrow> gate \<Rightarrow> gate" where
  "after_idle prog rid g =
     set_phase rid Rendering
       (emit [ActivityStart rid, RenderHTML rid (render_request_of prog (path_of g rid))] g)"

text \<open>Lines 183 to 191: the body of the error page.\<close>

definition error_page :: "string \<Rightarrow> IParsedError \<Rightarrow> string" where
  "error_page req_path error =
     ''<title>Develop SSR Error</title><h1>Error<h1>'' @ [CHR 0x0A] @
     ''        <h2>The page didn'' @ [CHR 0x27] @ ''t SSR correctly</h2>'' @ [CHR 0x0A] @
     ''        <ul>'' @ [CHR 0x0A] @
     ''          <li><strong>URL path:</strong> <code>'' @ req_path @ ''</code></li>'' @ [CHR 0x0A] @
     ''          <li><strong>File path:</strong> <code>'' @ pe_filename error @ ''</code></li>'' @ [CHR 0x0A] @
     ''        </ul>'' @ [CHR 0x0A] @
     ''        <h3>error message</h3>'' @ [CHR 0x0A] @
     ''        <p><code>'' @ pe_message error @ ''</code></p>'' @ [CHR 0x0A] @
     ''        <pre style='' @ [CHR 0x22] @ ''background:#fdfaf6;padding:8px;'' @ [CHR 0x22] @ ''>'' @
     pe_codeFrame error @ ''</pre>''"

text \<open>
  Lines 180 to 198: the handler resumes when the promise of \<open>renderHTML\<close> settles, with the
  rendered pages (\<open>Inr\<close>) or the error thrown (\<open>Inl\<close>). \<open>renderResponse[0]\<close> of an empty
  array is \<open>undefined\<close>. An exception of \<open>parseError\<close> is thrown inside the \<open>catch\<close> block
  and leaves the handler.
\<close>

definition after_render :: "program \<Rightarrow> nat \<Rightarrow> js_error + string list \<Rightarrow> gate \<Rightarrow> gate" where
  "after_render prog rid outcome g =
     (case outcome of
        Inr renderResponse \<Rightarrow>
          set_phase rid Returned
            (emit [Respond rid 200 (case renderResponse of [] \<Rightarrow> None | h # _ \<Rightarrow> Some h),
                   ActivityEnd rid] g)
      | Inl e \<Rightarrow>
          (case parseError prog e of
             Inl x \<Rightarrow> set_phase rid Failed (emit [Escaped rid x] g)
           | Inr error \<Rightarrow>
               set_phase rid Returned
                 (emit [Respond rid 500 (Some (error_page (path_of g rid) error)),
                        ActivityEnd rid] g)))"

text \<open>
  What happens to the route: a request arrives, the state machine sends an event, the
  event loop resumes a request whose awaited promise is resolved, a timer fires, the
  promise of a render call settles, the state of the develop machine changes, the page
  registry changes. An event for a request that is not in the matching phase does nothing.
\<close>

datatype event =
    Get string
  | Receive string
  | Resume nat
  | Tick nat
  | Settle nat "js_error + string list"
  | Machine string
  | Store "string set"

fun step :: "program \<Rightarrow> event \<Rightarrow> gate \<Rightarrow> gate" where
  "step prog (Get req_path) g = get_handler req_path g"
| "step prog (Receive event_type) g = listener event_type g"
| "step prog (Resume rid) g =
     (if phase_of g rid = Some Acked then after_ack rid g
      else if phase_of g rid = Some IdleSeen then after_idle prog rid g
      else g)"
| "step prog (Tick rid) g =
     (if phase_of g rid = Some Polling then interval_callback rid g else g)"
| "step prog (Settle rid outcome) g =
     (if phase_of g rid = Some Rendering then after_render prog rid outcome g else g)"
| "step prog (Machine v) g = g\<lparr>machine_state := v\<rparr>"
| "step prog (Store ps) g = g\<lparr>pages := ps\<rparr>"

fun run :: "program \<Rightarrow> event list \<Rightarrow> gate \<Rightarrow> gate" where
  "run prog [] g = g"
| "run prog (e # es) g = run prog es (step prog e g)"

text \<open>The route when it is created: no resolver stored, no request yet.\<close>

definition initial_gate :: "string set \<Rightarrow> string \<Rightarrow> gate" where
  "initial_gate ps v =
     \<lparr>outsideResolve = None, pages = ps, machine_state = v, requests = [], log = []\<rparr>"

section \<open>Auxiliary notions for the properties\<close>

text \<open>The pool an entry of the supervisor's trace is about.\<close>

definition pool_of :: "pool_action \<Rightarrow> nat" where
  "pool_of a = (case a of NewWorker w \<Rightarrow> w | RenderCall w _ \<Rightarrow> w | HandleSet w \<Rightarrow> w | EndCall w \<Rightarrow> w)"

text \<open>
  Every pool the module knows has been constructed: the handle and the trace only name
  objects that exist.
\<close>

definition supervisor_ok :: "supervisor \<Rightarrow> bool" where
  "supervisor_ok s =
     ((case worker s of None \<Rightarrow> True | Some w \<Rightarrow> w < created s) \<and>
      list_all (\<lambda>a. pool_of a < created s) (trace s))"

text \<open>A sequence of calls of \<open>renderDevHTML\<close>, each with the way its worker call settles.\<close>

fun submit_all :: "supervisor \<Rightarrow> (string \<times> string \<times> string \<times> (exn + jsval)) list \<Rightarrow> supervisor" where
  "submit_all s [] = s"
| "submit_all s ((p, h, d, settles) # js) = submit_all (snd (renderDevHTML s p h d settles)) js"

text \<open>The module when it is loaded: \<open>worker\<close> is undefined.\<close>

definition no_supervisor :: supervisor where
  "no_supervisor = \<lparr>worker = None, created = 0, in_flight = [], trace = []\<rparr>"

text \<open>Whether an entry of the supervisor's trace is a warming call.\<close>

definition is_warming_call :: "pool_action \<Rightarrow> bool" where
  "is_warming_call a = (case a of RenderCall _ Warming \<Rightarrow> True | _ \<Rightarrow> False)"

text \<open>The request an entry of the gate's log belongs to.\<close>

definition request_of :: "action \<Rightarrow> nat option" where
  "request_of a =
     (case a of
        Next r \<Rightarrow> Some r
      | Callback r _ \<Rightarrow> Some r
      | ResolveCalled r \<Rightarrow> Some r
      | ListenerThrew _ \<Rightarrow> None
      | ReadState r _ \<Rightarrow> Some r
      | SetInterval r \<Rightarrow> Some r
      | ClearInterval r \<Rightarrow> Some r
      | ActivityStart r \<Rightarrow> Some r
      | RenderHTML r _ \<Rightarrow> Some r
      | Respond r _ _ \<Rightarrow> Some r
      | ActivityEnd r \<Rightarrow> Some r
      | Escaped r _ \<Rightarrow> Some r)"

definition is_Callback :: "action \<Rightarrow> bool" where
  "is_Callback a = (case a of Callback _ _ \<Rightarrow> True | _ \<Rightarrow> False)"

text \<open>
  A log in which the resolver of request \<open>rid\<close> has been called and, after that, the
  request has read the state \<open>waiting\<close>, with no later read of the state by it.
\<close>

definition gated :: "nat \<Rightarrow> action list \<Rightarrow> bool" where
  "gated rid pre =
     (\<exists>A B C. pre = A @ ResolveCalled rid # B @ ReadState rid ''waiting'' # C \<and>
              (\<forall>v. ReadState rid v \<notin> set C))"

definition renders_gated :: "action list \<Rightarrow> bool" where
  "renders_gated L = (\<forall>pre post r rq. L = pre @ RenderHTML r rq # post \<longrightarrow> gated r pre)"

text \<open>What holds of the gate at every moment, and gives the order of its log.\<close>

definition gate_inv :: "gate \<Rightarrow> bool" where
  "gate_inv g =
     ((\<forall>r. phase_of g r = Some Acked \<or> phase_of g r = Some Polling \<longrightarrow>
           ResolveCalled r \<in> set (log g)) \<and>
      (\<forall>r. phase_of g r = Some IdleSeen \<longrightarrow> gated r (log g)) \<and>
      renders_gated (log g))"

text \<open>
  The stored resolver, when there is one, belongs to a request that has arrived, and was
  stored together with a signal to the state machine.
\<close>

definition resolver_ok :: "gate \<Rightarrow> bool" where
  "resolver_ok g =
     (case outsideResolve g of
        None \<Rightarrow> True
      | Some r \<Rightarrow> r < length (requests g) \<and> list_ex is_Callback (log g))"

text \<open>A program and an error for the examples: one source file, the stack \<open>garbage\<close>.\<close>

definition example_program :: program where
  "example_program =
     \<lparr>directory = ''/project'',
      files = [''/project/src/pages/about.js'' \<mapsto> ''export default () => null''],
      codeFrameHTML = (\<lambda>code l r. code),
      process_env = Map.empty\<rparr>"

definition garbage_error :: js_error where
  "garbage_error =
     \<lparr>err_stack = Some ''garbage'', err_message = Some ''boom'',
      err_type = None, err_name = Some ''Error''\<rparr>"

text \<open>
  A request for the registered path \<open>/about\<close> that is acknowledged while the machine is
  busy, polls, sees \<open>waiting\<close> and reaches the render call.
\<close>

definition about_until_render :: "event list" where
  "about_until_render =
     [Get ''/about'', Receive ''SEND_DEVELOP_HTML_RESPONSES'', Resume 0, Tick 0,
      Machine ''waiting'', Tick 0, Resume 0]"

text \<open>The route once that request has reached the render call.\<close>

definition rendering_gate :: gate where
  "rendering_gate = run example_program about_until_render (initial_gate {''/about''} ''busy'')"

text \<open>The route after one request for a path that is not registered.\<close>

definition idle_gate :: gate where
  "idle_gate = run example_program [Get ''/nope''] (initial_gate {''/about''} ''busy'')"

section \<open>Properties of the Error Translator\<close>

text \<open>
  C4. The claim: for the stack made of the single line \<open>garbage\<close>, the position parser
  returns the empty filename, line 0 and column 0. The code does not: no line has the
  parenthesised shape, the first raw line split at colons has the one element \<open>garbage\<close>,
  the reads at the third and second place from its end are out of range and give
  \<open>undefined\<close> without throwing, so the \<open>catch\<close> that holds the soft-fail position is not
  entered. The filename is \<open>undefined\<close>, the line is the number of \<open>undefined\<close> and the
  column the number of \<open>garbage\<close>: both NaN.
\<close>

theorem getPosition_garbage:
  "getPosition [''garbage''] = \<lparr>filename = None, line = JNaN, row = JNaN\<rparr>"
  by code_simp

text \<open>
  The same happens for a stack of the engine whose first frame has no position, as for
  an error thrown by \<open>JSON.parse\<close>: the filename is \<open>undefined\<close> and \<open>parseError\<close> throws.
\<close>

lemma parseError_anonymous_frame:
  "parseError example_program
     \<lparr>err_stack = Some (''SyntaxError: Unexpected token'' @ [CHR 0x0A] @
                         ''    at JSON.parse (<anonymous>)'' @ [CHR 0x0A] @
                         ''    at render (/project/public/render-page.js:10:3)''),
      err_message = Some ''Unexpected token'', err_type = None, err_name = Some ''SyntaxError''\<rparr>
   = Inl TypeError"
  by code_simp

lemma paren_match_render_page:
  "paren_match ''at f (/project/lib/render-page.js:42:7)'' = Some ''/project/lib/render-page.js:42:7''"
  by code_simp

lemma split_render_page:
  "split_on CHR '':'' ''/project/lib/render-page.js:42:7'' = [''/project/lib/render-page.js'', ''42'', ''7'']"
  by code_simp

lemma number_42_7: "js_Number (Some ''42'') = JNum 42" "js_Number (Some ''7'') = JNum 7"
  by code_simp+

lemma reconstruct_render_page:
  "reconstructFilename ''/project'' ''/project/lib/render-page.js'' = ''/project/lib/render-page.js''"
  by code_simp

text \<open>
  C3, as stated, fails: for the stack line \<open>at f (/project/lib/render-page.js:42:7)\<close> and the
  root \<open>/project\<close> the reconstructed filename is not \<open>/project/render-page.js\<close>. The two
  segments dropped from the absolute path are the empty one before the first slash and
  \<open>project\<close>; \<open>lib\<close> stays.
\<close>

theorem render_page_filename_not_stripped:
  "map_option (reconstructFilename ''/project'')
     (filename (getPosition [''at f (/project/lib/render-page.js:42:7)'']))
   \<noteq> Some ''/project/render-page.js''"
  by code_simp

text \<open>
  C3, amended: when the first line of the stack that matches the parenthesised shape is
  \<open>at f (/project/lib/render-page.js:42:7)\<close>, \<open>getPosition\<close> gives the filename
  \<open>/project/lib/render-page.js\<close>, line 42 and column 7, and the join against the root
  \<open>/project\<close> after dropping two segments gives \<open>/project/lib/render-page.js\<close>.
\<close>

theorem render_page_position:
  assumes "filter paren_test stackObject = ''at f (/project/lib/render-page.js:42:7)'' # rest"
  shows "getPosition stackObject =
           \<lparr>filename = Some ''/project/lib/render-page.js'', line = JNum 42, row = JNum 7\<rparr> \<and>
         map_option (reconstructFilename ''/project'') (filename (getPosition stackObject)) =
           Some ''/project/lib/render-page.js''"
proof -
  have "getPosition stackObject =
           \<lparr>filename = Some ''/project/lib/render-page.js'', line = JNum 42, row = JNum 7\<rparr>"
    unfolding getPosition_def Let_def assms
    by (simp only: list.sel list.simps if_True paren_match_render_page split_render_page option.simps
          not_False_eq_True if_False index_back_def) (simp add: number_42_7)
  then show ?thesis by (simp add: reconstruct_render_page)
qed

theorem render_page_position_witness:
  "filter paren_test
     [''Error: boom'', ''at f (/project/lib/render-page.js:42:7)'', ''at g (/x.js:1:1)'']
     = [''at f (/project/lib/render-page.js:42:7)'', ''at g (/x.js:1:1)''] \<and>
   getPosition [''Error: boom'', ''at f (/project/lib/render-page.js:42:7)'', ''at g (/x.js:1:1)''] =
     \<lparr>filename = Some ''/project/lib/render-page.js'', line = JNum 42, row = JNum 7\<rparr> \<and>
   map_option (reconstructFilename ''/project'')
     (filename (getPosition
        [''Error: boom'', ''at f (/project/lib/render-page.js:42:7)'', ''at g (/x.js:1:1)''])) =
     Some ''/project/lib/render-page.js''"
proof -
  have matching: "filter paren_test
       [''Error: boom'', ''at f (/project/lib/render-page.js:42:7)'', ''at g (/x.js:1:1)'']
     = ''at f (/project/lib/render-page.js:42:7)'' # [''at g (/x.js:1:1)'']"
    by code_simp
  from render_page_position [OF matching] matching show ?thesis by blast
qed

section \<open>Properties of the worker pool\<close>

lemma startWorker_simps:
  "fst (startWorker s) = created s"
  "worker (snd (startWorker s)) = worker s"
  "created (snd (startWorker s)) = Suc (created s)"
  "trace (snd (startWorker s)) = trace s @ [NewWorker (created s), RenderCall (created s) Warming]"
  "in_flight (snd (startWorker s)) = in_flight s @ [(created s, Warming)]"
  by (simp_all add: startWorker_def Let_def)

lemma renderDevHTML_worker: "worker (snd (renderDevHTML s p h d settles)) = worker s"
  by (simp add: renderDevHTML_def call_settled_def Let_def split: option.splits sum.splits)

lemma renderDevHTML_trace:
  "worker s = Some w \<Longrightarrow>
   trace (snd (renderDevHTML s p h d settles)) = trace s @ [RenderCall w (Job p h d)]"
  by (simp add: renderDevHTML_def call_settled_def Let_def split: option.splits sum.splits)

lemma submit_all_worker: "worker (submit_all s js) = worker s"
  by (induction s js rule: submit_all.induct) (simp_all add: renderDevHTML_worker)

lemma submit_all_trace:
  "worker s = Some w \<Longrightarrow>
   trace (submit_all s js) = trace s @ map (\<lambda>(p, h, d, settles). RenderCall w (Job p h d)) js"
proof (induction s js rule: submit_all.induct)
  case (1 s)
  then show ?case by simp
next
  case (2 s p h d settles js)
  then show ?case by (simp add: renderDevHTML_worker renderDevHTML_trace)
qed

lemma restartWorker_worker: "worker (snd (restartWorker s)) = Some (created s)"
  by (simp add: restartWorker_def startWorker_def Let_def split: option.splits)

lemma restartWorker_trace:
  "trace (snd (restartWorker s)) =
     trace s @ [NewWorker (created s), RenderCall (created s) Warming, HandleSet (created s)] @
     (case worker s of None \<Rightarrow> [] | Some old \<Rightarrow> [EndCall old])"
  by (simp add: restartWorker_def startWorker_def Let_def split: option.splits)

lemma restartWorker_result:
  "fst (restartWorker s) = (case worker s of None \<Rightarrow> Inl TypeError | Some old \<Rightarrow> Inr ())"
  by (simp add: restartWorker_def startWorker_def Let_def split: option.splits)

lemma supervisor_ok_startWorker: "supervisor_ok s \<Longrightarrow> supervisor_ok (snd (startWorker s))"
  by (auto simp: supervisor_ok_def startWorker_def Let_def pool_of_def list_all_iff split: option.splits)

lemma supervisor_ok_initDevWorkerPool: "supervisor_ok s \<Longrightarrow> supervisor_ok (initDevWorkerPool s)"
  by (auto simp: supervisor_ok_def initDevWorkerPool_def startWorker_def Let_def pool_of_def list_all_iff split: option.splits)

lemma supervisor_ok_restartWorker: "supervisor_ok s \<Longrightarrow> supervisor_ok (snd (restartWorker s))"
  by (auto simp: supervisor_ok_def restartWorker_def startWorker_def Let_def pool_of_def list_all_iff split: option.splits)

lemma supervisor_ok_renderDevHTML: "supervisor_ok s \<Longrightarrow> supervisor_ok (snd (renderDevHTML s p h d settles))"
  by (auto simp: supervisor_ok_def renderDevHTML_def call_settled_def Let_def pool_of_def list_all_iff split: option.splits sum.splits)

lemma supervisor_ok_no_supervisor: "supervisor_ok no_supervisor"
  by (simp add: supervisor_ok_def no_supervisor_def)

text \<open>
  C5, as stated, fails: when the worker's call succeeds with a sequence, \<open>renderDevHTML\<close>
  resolves with the whole sequence, not with its first element.
\<close>

theorem renderDevHTML_resolves_with_whole_response:
  "element0 (JArray [JString ''<html>About</html>'']) = Some (JString ''<html>About</html>'') \<and>
   fst (renderDevHTML (initDevWorkerPool no_supervisor) ''/about''
          ''/project/public/render-page.js'' ''/project''
          (Inr (JArray [JString ''<html>About</html>''])))
     \<noteq> Inr (JString ''<html>About</html>'')"
  by (simp add: renderDevHTML_def initDevWorkerPool_def startWorker_def no_supervisor_def
      call_settled_def Let_def)

text \<open>
  C5, amended: for every call of \<open>renderDevHTML\<close> while a pool is set, the call is passed
  to that pool with the three arguments; when the worker's call succeeds the promise
  resolves with the worker's response unchanged (no element is selected), and when the
  worker throws the promise rejects with that error unchanged.
\<close>

theorem renderDevHTML_forwards:
  assumes "worker s = Some w"
  shows "fst (renderDevHTML s p h d (Inr response)) = Inr response \<and>
         fst (renderDevHTML s p h d (Inl error)) = Inl error \<and>
         trace (snd (renderDevHTML s p h d settles)) = trace s @ [RenderCall w (Job p h d)]"
  using assms by (simp add: renderDevHTML_def call_settled_def Let_def split: sum.splits)

theorem renderDevHTML_forwards_witness:
  "worker (initDevWorkerPool no_supervisor) = Some 0 \<and>
   fst (renderDevHTML (initDevWorkerPool no_supervisor) ''/about'' ''/project/public/render-page.js''
          ''/project'' (Inr (JString ''<html>About</html>''))) = Inr (JString ''<html>About</html>'') \<and>
   fst (renderDevHTML (initDevWorkerPool no_supervisor) ''/about'' ''/project/public/render-page.js''
          ''/project'' (Inl (FsError ''/project/public/render-page.js''))) =
     Inl (FsError ''/project/public/render-page.js'')"
proof -
  have w: "worker (initDevWorkerPool no_supervisor) = Some 0"
    by (simp add: initDevWorkerPool_def startWorker_def no_supervisor_def Let_def)
  from renderDevHTML_forwards [OF w, of "''/about''" "''/project/public/render-page.js''"
      "''/project''" "JString ''<html>About</html>''" "FsError ''/project/public/render-page.js''"]
    w show ?thesis by blast
qed

text \<open>
  C6. Let the module be in a state where every pool it names has been constructed, with
  the handle on a pool \<open>old\<close>. Then \<open>restartWorker\<close> returns normally; it constructs a new
  pool (and warms it), then assigns the handle, then ends the old pool, in this order;
  the new pool is not the old one; every \<open>renderDevHTML\<close> call made afterwards goes to
  the new pool, none of them goes to the old pool, and the new pool is never ended.
\<close>

theorem restartWorker_routes_to_new_pool:
  assumes ok: "supervisor_ok s"
    and old: "worker s = Some old"
  shows "fst (restartWorker s) = Inr () \<and>
         worker (snd (restartWorker s)) = Some (created s) \<and>
         created s \<noteq> old \<and>
         trace (snd (restartWorker s)) =
           trace s @ [NewWorker (created s), RenderCall (created s) Warming,
                      HandleSet (created s), EndCall old] \<and>
         trace (submit_all (snd (restartWorker s)) js) =
           trace (snd (restartWorker s)) @
           map (\<lambda>(p, h, d, settles). RenderCall (created s) (Job p h d)) js \<and>
         RenderCall old (Job p h d) \<notin> set (drop (length (trace s)) (trace (submit_all (snd (restartWorker s)) js))) \<and>
         EndCall (created s) \<notin> set (trace (submit_all (snd (restartWorker s)) js))"
proof -
  let ?s1 = "snd (restartWorker s)"
  have lt: "old < created s"
    using ok old by (simp add: supervisor_ok_def)
  have fresh: "list_all (\<lambda>a. pool_of a < created s) (trace s)"
    using ok by (simp add: supervisor_ok_def)
  have w1: "worker ?s1 = Some (created s)"
    by (rule restartWorker_worker)
  have t1: "trace ?s1 = trace s @ [NewWorker (created s), RenderCall (created s) Warming,
                      HandleSet (created s), EndCall old]"
    by (simp add: restartWorker_trace old)
  have t2: "trace (submit_all ?s1 js) =
           trace ?s1 @ map (\<lambda>(p, h, d, settles). RenderCall (created s) (Job p h d)) js"
    by (rule submit_all_trace [OF w1])
  have no_old: "RenderCall old (Job p h d) \<notin> set (drop (length (trace s)) (trace (submit_all ?s1 js)))"
    using lt by (auto simp: t2 t1)
  have "EndCall (created s) \<notin> set (trace s)"
    using fresh by (auto simp: list_all_iff pool_of_def)
  then have no_end: "EndCall (created s) \<notin> set (trace (submit_all ?s1 js))"
    using lt by (auto simp: t2 t1)
  show ?thesis
    using lt w1 t1 t2 no_old no_end by (simp add: restartWorker_result old)
qed

theorem restartWorker_routes_to_new_pool_witness:
  "supervisor_ok (initDevWorkerPool no_supervisor) \<and>
   worker (initDevWorkerPool no_supervisor) = Some 0 \<and>
   worker (snd (restartWorker (initDevWorkerPool no_supervisor))) = Some 1 \<and>
   trace (submit_all (snd (restartWorker (initDevWorkerPool no_supervisor)))
            [(''/about'', ''/project/public/render-page.js'', ''/project'', Inr (JString ''<html>''))]) =
     [NewWorker 0, RenderCall 0 Warming, HandleSet 0,
      NewWorker 1, RenderCall 1 Warming, HandleSet 1, EndCall 0,
      RenderCall 1 (Job ''/about'' ''/project/public/render-page.js'' ''/project'')]"
proof -
  have ok: "supervisor_ok (initDevWorkerPool no_supervisor)"
    by (rule supervisor_ok_initDevWorkerPool [OF supervisor_ok_no_supervisor])
  have w: "worker (initDevWorkerPool no_supervisor) = Some 0"
    by (simp add: initDevWorkerPool_def startWorker_def no_supervisor_def Let_def)
  have c: "created (initDevWorkerPool no_supervisor) = 1"
    by (simp add: initDevWorkerPool_def startWorker_def no_supervisor_def Let_def)
  have t: "trace (initDevWorkerPool no_supervisor) = [NewWorker 0, RenderCall 0 Warming, HandleSet 0]"
    by (simp add: initDevWorkerPool_def startWorker_def no_supervisor_def Let_def)
  from restartWorker_routes_to_new_pool [OF ok w,
      of "[(''/about'', ''/project/public/render-page.js'', ''/project'', Inr (JString ''<html>''))]"
         "''/about''" "''/project/public/render-page.js''" "''/project''"]
  show ?thesis using ok w by (simp add: c t)
qed

text \<open>
  C7. \<open>startWorker\<close> constructs one pool, issues on it exactly one call of \<open>renderHTML\<close>,
  marked as warming, and returns the handle of that pool with the warming call still in
  flight: nothing in \<open>startWorker\<close> waits for the call to settle.
\<close>

theorem startWorker_warms_without_waiting:
  "fst (startWorker s) = created s \<and>
   trace (snd (startWorker s)) = trace s @ [NewWorker (created s), RenderCall (created s) Warming] \<and>
   length (filter is_warming_call (drop (length (trace s)) (trace (snd (startWorker s))))) = 1 \<and>
   in_flight (snd (startWorker s)) = in_flight s @ [(fst (startWorker s), Warming)]"
  by (simp add: startWorker_def Let_def is_warming_call_def)

section \<open>Properties of the Request Gate\<close>

lemma emit_simps:
  "log (emit as g) = log g @ as"
  "requests (emit as g) = requests g"
  "outsideResolve (emit as g) = outsideResolve g"
  "machine_state (emit as g) = machine_state g"
  "pages (emit as g) = pages g"
  "phase_of (emit as g) r = phase_of g r"
  "path_of (emit as g) r = path_of g r"
  by (simp_all add: emit_def phase_of_def path_of_def)

lemma set_phase_simps:
  "log (set_phase rid ph g) = log g"
  "length (requests (set_phase rid ph g)) = length (requests g)"
  "outsideResolve (set_phase rid ph g) = outsideResolve g"
  "machine_state (set_phase rid ph g) = machine_state g"
  "pages (set_phase rid ph g) = pages g"
  by (simp_all add: set_phase_def)

lemma phase_of_set_phase:
  "phase_of (set_phase rid ph g) r =
     (if r = rid \<and> rid < length (requests g) then Some ph else phase_of g r)"
  by (auto simp: set_phase_def phase_of_def)

lemma phase_of_Some_less: "phase_of g r = Some ph \<Longrightarrow> r < length (requests g)"
  by (simp add: phase_of_def split: if_splits)

lemma gated_append:
  assumes "gated r L" and "\<And>v. ReadState r v \<notin> set new"
  shows "gated r (L @ new)"
proof -
  from assms(1) obtain A B C where
    L: "L = A @ ResolveCalled r # B @ ReadState r ''waiting'' # C" and C: "\<forall>v. ReadState r v \<notin> set C"
    unfolding gated_def by blast
  have "L @ new = A @ ResolveCalled r # B @ ReadState r ''waiting'' # (C @ new)"
    by (simp add: L)
  moreover have "\<forall>v. ReadState r v \<notin> set (C @ new)"
    using C assms(2) by auto
  ultimately show ?thesis unfolding gated_def by blast
qed

lemma gated_read:
  assumes "ResolveCalled r \<in> set L"
  shows "gated r (L @ [ReadState r ''waiting''])"
proof -
  from assms obtain A B where "L = A @ ResolveCalled r # B"
    by (auto dest: split_list)
  then have "L @ [ReadState r ''waiting''] = A @ ResolveCalled r # B @ ReadState r ''waiting'' # []"
    by simp
  moreover have "\<forall>v. ReadState r v \<notin> set []" by simp
  ultimately show ?thesis unfolding gated_def by blast
qed

lemma renders_gated_snoc:
  assumes "renders_gated L" and "\<And>r rq. a = RenderHTML r rq \<Longrightarrow> gated r L"
  shows "renders_gated (L @ [a])"
  unfolding renders_gated_def
proof (intro allI impI)
  fix pre post r rq
  assume eq: "L @ [a] = pre @ RenderHTML r rq # post"
  show "gated r pre"
  proof (cases post rule: rev_cases)
    case Nil
    with eq have "L = pre" "a = RenderHTML r rq" by auto
    with assms(2) show ?thesis by simp
  next
    case (snoc post' x)
    with eq have "L = pre @ RenderHTML r rq # post'" by auto
    with assms(1) show ?thesis unfolding renders_gated_def by blast
  qed
qed

lemma renders_gated_append:
  assumes "renders_gated L" and "\<And>r rq. RenderHTML r rq \<notin> set new"
  shows "renders_gated (L @ new)"
  using assms(2)
proof (induction new rule: rev_induct)
  case Nil
  then show ?case using assms(1) by simp
next
  case (snoc a new)
  have "renders_gated ((L @ new) @ [a])"
  proof (rule renders_gated_snoc)
    show "renders_gated (L @ new)" using snoc by simp
  next
    fix r rq assume "a = RenderHTML r rq"
    with snoc.prems [of r rq] show "gated r (L @ new)" by simp
  qed
  then show ?case by simp
qed

lemma renders_gated_Nil: "renders_gated []"
  by (simp add: renders_gated_def)

lemma gate_inv_initial: "gate_inv (initial_gate ps v)"
  by (simp add: gate_inv_def initial_gate_def phase_of_def renders_gated_Nil)

lemma gate_invD:
  assumes "gate_inv g"
  shows "phase_of g r = Some Acked \<Longrightarrow> ResolveCalled r \<in> set (log g)"
    and "phase_of g r = Some Polling \<Longrightarrow> ResolveCalled r \<in> set (log g)"
    and "phase_of g r = Some IdleSeen \<Longrightarrow> gated r (log g)"
    and "renders_gated (log g)"
  using assms by (simp_all add: gate_inv_def)

text \<open>A step that appends entries to the log and moves at most one request to a new phase.\<close>

lemma gate_inv_frame:
  assumes inv: "gate_inv g"
    and log: "log g' = log g @ new"
    and others: "\<And>r. r \<noteq> rid \<Longrightarrow> phase_of g' r = phase_of g r"
    and foreign: "\<And>r v. r \<noteq> rid \<Longrightarrow> ReadState r v \<notin> set new"
    and acked: "phase_of g' rid = Some Acked \<or> phase_of g' rid = Some Polling
                  \<Longrightarrow> ResolveCalled rid \<in> set (log g @ new)"
    and idle: "phase_of g' rid = Some IdleSeen \<Longrightarrow> gated rid (log g @ new)"
    and renders: "renders_gated (log g @ new)"
  shows "gate_inv g'"
  unfolding gate_inv_def
proof (intro conjI allI impI)
  fix r
  assume ph: "phase_of g' r = Some Acked \<or> phase_of g' r = Some Polling"
  show "ResolveCalled r \<in> set (log g')"
  proof (cases "r = rid")
    case True
    with ph acked show ?thesis by (simp add: log)
  next
    case False
    with ph others [OF False] gate_invD(1,2) [OF inv, of r] show ?thesis by (auto simp: log)
  qed
next
  fix r
  assume ph: "phase_of g' r = Some IdleSeen"
  show "gated r (log g')"
  proof (cases "r = rid")
    case True
    with ph idle show ?thesis by (simp add: log)
  next
    case False
    with ph others [OF False] have "gated r (log g)"
      using gate_invD(3) [OF inv, of r] by simp
    then show ?thesis
      unfolding log using foreign [OF False] by (rule gated_append)
  qed
next
  show "renders_gated (log g')" using renders by (simp add: log)
qed

lemma gate_inv_get_handler:
  assumes inv: "gate_inv g"
  shows "gate_inv (get_handler p g)"
proof (cases "p \<in> pages g")
  case True
  let ?rid = "length (requests g)"
  let ?g' = "get_handler p g"
  have "gate_inv ?g'"
  proof (rule gate_inv_frame [OF inv, where rid = ?rid and new = "[Callback ?rid ''DEVELOP_HTML_REQUEST_RECEIVED'']"])
    show "log ?g' = log g @ [Callback ?rid ''DEVELOP_HTML_REQUEST_RECEIVED'']"
      using True by (simp add: get_handler_def Let_def emit_simps)
    show "\<And>r. r \<noteq> ?rid \<Longrightarrow> phase_of ?g' r = phase_of g r"
      using True by (simp add: get_handler_def Let_def emit_simps phase_of_def nth_append)
    have ph: "phase_of ?g' ?rid = Some AwaitAck"
      using True by (simp add: get_handler_def Let_def emit_simps phase_of_def)
    show "phase_of ?g' ?rid = Some Acked \<or> phase_of ?g' ?rid = Some Polling \<Longrightarrow>
      ResolveCalled ?rid \<in> set (log g @ [Callback ?rid ''DEVELOP_HTML_REQUEST_RECEIVED''])"
      by (simp add: ph)
    show "phase_of ?g' ?rid = Some IdleSeen \<Longrightarrow>
      gated ?rid (log g @ [Callback ?rid ''DEVELOP_HTML_REQUEST_RECEIVED''])"
      by (simp add: ph)
    show "renders_gated (log g @ [Callback ?rid ''DEVELOP_HTML_REQUEST_RECEIVED''])"
      by (rule renders_gated_append [OF gate_invD(4) [OF inv]]) simp
  qed simp
  then show ?thesis .
next
  case False
  let ?rid = "length (requests g)"
  let ?g' = "get_handler p g"
  have "gate_inv ?g'"
  proof (rule gate_inv_frame [OF inv, where rid = ?rid and new = "[Next ?rid]"])
    show "log ?g' = log g @ [Next ?rid]"
      using False by (simp add: get_handler_def Let_def emit_simps)
    show "\<And>r. r \<noteq> ?rid \<Longrightarrow> phase_of ?g' r = phase_of g r"
      using False by (simp add: get_handler_def Let_def emit_simps phase_of_def nth_append)
    have ph: "phase_of ?g' ?rid = Some Returned"
      using False by (simp add: get_handler_def Let_def emit_simps phase_of_def)
    show "phase_of ?g' ?rid = Some Acked \<or> phase_of ?g' ?rid = Some Polling \<Longrightarrow>
      ResolveCalled ?rid \<in> set (log g @ [Next ?rid])"
      by (simp add: ph)
    show "phase_of ?g' ?rid = Some IdleSeen \<Longrightarrow> gated ?rid (log g @ [Next ?rid])"
      by (simp add: ph)
    show "renders_gated (log g @ [Next ?rid])"
      by (rule renders_gated_append [OF gate_invD(4) [OF inv]]) simp
  qed simp
  then show ?thesis .
qed


lemma gate_inv_listener:
  assumes inv: "gate_inv g"
  shows "gate_inv (listener ty g)"
proof (cases "ty = ''SEND_DEVELOP_HTML_RESPONSES''")
  case False
  then show ?thesis using inv by (simp add: listener_def)
next
  case send: True
  show ?thesis
  proof (cases "outsideResolve g")
    case None
    have "gate_inv (emit [ListenerThrew TypeError] g)"
    proof (rule gate_inv_frame [OF inv, where rid = 0 and new = "[ListenerThrew TypeError]"])
      show "renders_gated (log g @ [ListenerThrew TypeError])"
        by (rule renders_gated_append [OF gate_invD(4) [OF inv]]) simp
      show "phase_of (emit [ListenerThrew TypeError] g) 0 = Some IdleSeen \<Longrightarrow>
          gated 0 (log g @ [ListenerThrew TypeError])"
        using gate_invD(3) [OF inv, of 0] by (simp add: emit_simps gated_append)
      show "phase_of (emit [ListenerThrew TypeError] g) 0 = Some Acked \<or>
          phase_of (emit [ListenerThrew TypeError] g) 0 = Some Polling \<Longrightarrow>
          ResolveCalled 0 \<in> set (log g @ [ListenerThrew TypeError])"
        using gate_invD(1,2) [OF inv, of 0] by (auto simp: emit_simps)
    qed (simp_all add: emit_simps)
    then show ?thesis using send None by (simp add: listener_def)
  next
    case (Some rid)
    let ?g' = "listener ty g"
    have log': "log ?g' = log g @ [ResolveCalled rid]"
      using send Some by (simp add: listener_def emit_simps set_phase_simps)
    have ph': "\<And>r. phase_of ?g' r =
        (if r = rid \<and> phase_of g rid = Some AwaitAck then Some Acked else phase_of g r)"
      using send Some
      by (auto simp: listener_def emit_simps phase_of_set_phase dest: phase_of_Some_less)
    show ?thesis
    proof (rule gate_inv_frame [OF inv log', where rid = rid])
      show "renders_gated (log g @ [ResolveCalled rid])"
        by (rule renders_gated_append [OF gate_invD(4) [OF inv]]) simp
      show "phase_of ?g' rid = Some IdleSeen \<Longrightarrow> gated rid (log g @ [ResolveCalled rid])"
        using gate_invD(3) [OF inv, of rid] by (simp add: ph' gated_append split: if_splits)
      show "phase_of ?g' rid = Some Acked \<or> phase_of ?g' rid = Some Polling \<Longrightarrow>
          ResolveCalled rid \<in> set (log g @ [ResolveCalled rid])"
        by simp
    qed (simp_all add: ph')
  qed
qed

lemma gate_inv_after_ack:
  assumes inv: "gate_inv g" and ph: "phase_of g rid = Some Acked"
  shows "gate_inv (after_ack rid g)"
proof -
  have res: "ResolveCalled rid \<in> set (log g)"
    by (rule gate_invD(1) [OF inv ph])
  have lt: "rid < length (requests g)"
    by (rule phase_of_Some_less [OF ph])
  show ?thesis
  proof (cases "machine_state g = ''waiting''")
    case True
    let ?g' = "after_ack rid g"
    have log': "log ?g' = log g @ [ReadState rid ''waiting'']"
      using True by (simp add: after_ack_def emit_simps set_phase_simps)
    have ph': "\<And>r. phase_of ?g' r = (if r = rid then Some IdleSeen else phase_of g r)"
      using True lt by (simp add: after_ack_def emit_simps phase_of_set_phase)
    show ?thesis
    proof (rule gate_inv_frame [OF inv log', where rid = rid])
      show "renders_gated (log g @ [ReadState rid ''waiting''])"
        by (rule renders_gated_append [OF gate_invD(4) [OF inv]]) simp
      show "phase_of ?g' rid = Some IdleSeen \<Longrightarrow> gated rid (log g @ [ReadState rid ''waiting''])"
        using res by (simp add: gated_read)
      show "phase_of ?g' rid = Some Acked \<or> phase_of ?g' rid = Some Polling \<Longrightarrow>
          ResolveCalled rid \<in> set (log g @ [ReadState rid ''waiting''])"
        using res by simp
    qed (simp_all add: ph')
  next
    case False
    let ?g' = "after_ack rid g"
    have log': "log ?g' = log g @ [ReadState rid (machine_state g), SetInterval rid]"
      using False by (simp add: after_ack_def emit_simps set_phase_simps)
    have ph': "\<And>r. phase_of ?g' r = (if r = rid then Some Polling else phase_of g r)"
      using False lt by (simp add: after_ack_def emit_simps phase_of_set_phase)
    show ?thesis
    proof (rule gate_inv_frame [OF inv log', where rid = rid])
      show "renders_gated (log g @ [ReadState rid (machine_state g), SetInterval rid])"
        by (rule renders_gated_append [OF gate_invD(4) [OF inv]]) simp
      show "phase_of ?g' rid = Some IdleSeen \<Longrightarrow>
          gated rid (log g @ [ReadState rid (machine_state g), SetInterval rid])"
        by (simp add: ph')
      show "phase_of ?g' rid = Some Acked \<or> phase_of ?g' rid = Some Polling \<Longrightarrow>
          ResolveCalled rid \<in> set (log g @ [ReadState rid (machine_state g), SetInterval rid])"
        using res by simp
    qed (simp_all add: ph')
  qed
qed

lemma gate_inv_interval_callback:
  assumes inv: "gate_inv g" and ph: "phase_of g rid = Some Polling"
  shows "gate_inv (interval_callback rid g)"
proof -
  have res: "ResolveCalled rid \<in> set (log g)"
    by (rule gate_invD(2) [OF inv ph])
  have lt: "rid < length (requests g)"
    by (rule phase_of_Some_less [OF ph])
  show ?thesis
  proof (cases "machine_state g = ''waiting''")
    case True
    let ?g' = "interval_callback rid g"
    have log': "log ?g' = log g @ [ReadState rid ''waiting'', ClearInterval rid]"
      using True by (simp add: interval_callback_def emit_simps set_phase_simps)
    have ph': "\<And>r. phase_of ?g' r = (if r = rid then Some IdleSeen else phase_of g r)"
      using True lt by (simp add: interval_callback_def emit_simps phase_of_set_phase)
    have "gated rid ((log g @ [ReadState rid ''waiting'']) @ [ClearInterval rid])"
      by (rule gated_append [OF gated_read [OF res]]) simp
    then have g: "gated rid (log g @ [ReadState rid ''waiting'', ClearInterval rid])"
      by simp
    show ?thesis
    proof (rule gate_inv_frame [OF inv log', where rid = rid])
      show "renders_gated (log g @ [ReadState rid ''waiting'', ClearInterval rid])"
        by (rule renders_gated_append [OF gate_invD(4) [OF inv]]) simp
      show "phase_of ?g' rid = Some IdleSeen \<Longrightarrow>
          gated rid (log g @ [ReadState rid ''waiting'', ClearInterval rid])"
        using g by simp
      show "phase_of ?g' rid = Some Acked \<or> phase_of ?g' rid = Some Polling \<Longrightarrow>
          ResolveCalled rid \<in> set (log g @ [ReadState rid ''waiting'', ClearInterval rid])"
        using res by simp
    qed (simp_all add: ph')
  next
    case False
    let ?g' = "interval_callback rid g"
    have log': "log ?g' = log g @ [ReadState rid (machine_state g)]"
      using False by (simp add: interval_callback_def emit_simps)
    have ph': "\<And>r. phase_of ?g' r = phase_of g r"
      using False by (simp add: interval_callback_def emit_simps)
    show ?thesis
    proof (rule gate_inv_frame [OF inv log', where rid = rid])
      show "renders_gated (log g @ [ReadState rid (machine_state g)])"
        by (rule renders_gated_append [OF gate_invD(4) [OF inv]]) simp
      show "phase_of ?g' rid = Some IdleSeen \<Longrightarrow> gated rid (log g @ [ReadState rid (machine_state g)])"
        by (simp add: ph' ph)
      show "phase_of ?g' rid = Some Acked \<or> phase_of ?g' rid = Some Polling \<Longrightarrow>
          ResolveCalled rid \<in> set (log g @ [ReadState rid (machine_state g)])"
        using res by simp
    qed (simp_all add: ph')
  qed
qed

lemma gate_inv_after_idle:
  assumes inv: "gate_inv g" and ph: "phase_of g rid = Some IdleSeen"
  shows "gate_inv (after_idle prog rid g)"
proof -
  have gt: "gated rid (log g)"
    by (rule gate_invD(3) [OF inv ph])
  have lt: "rid < length (requests g)"
    by (rule phase_of_Some_less [OF ph])
  let ?g' = "after_idle prog rid g"
  let ?rq = "render_request_of prog (path_of g rid)"
  have log': "log ?g' = log g @ [ActivityStart rid, RenderHTML rid ?rq]"
    by (simp add: after_idle_def emit_simps set_phase_simps)
  have ph': "\<And>r. phase_of ?g' r = (if r = rid then Some Rendering else phase_of g r)"
    using lt by (simp add: after_idle_def emit_simps phase_of_set_phase)
  have r1: "renders_gated (log g @ [ActivityStart rid])"
    by (rule renders_gated_append [OF gate_invD(4) [OF inv]]) simp
  have g1: "gated rid (log g @ [ActivityStart rid])"
    by (rule gated_append [OF gt]) simp
  have "renders_gated ((log g @ [ActivityStart rid]) @ [RenderHTML rid ?rq])"
    by (rule renders_gated_snoc [OF r1]) (simp add: g1)
  then have r2: "renders_gated (log g @ [ActivityStart rid, RenderHTML rid ?rq])"
    by simp
  show ?thesis
    by (rule gate_inv_frame [OF inv log', where rid = rid]) (simp_all add: ph' r2)
qed

lemma gate_inv_after_render:
  assumes inv: "gate_inv g" and ph: "phase_of g rid = Some Rendering"
  shows "gate_inv (after_render prog rid outcome g)"
proof -
  have lt: "rid < length (requests g)"
    by (rule phase_of_Some_less [OF ph])
  let ?g' = "after_render prog rid outcome g"
  obtain new where log': "log ?g' = log g @ new"
    and new: "\<And>r rq. RenderHTML r rq \<notin> set new" "\<And>r v. ReadState r v \<notin> set new"
    by (cases outcome; cases "parseError prog (projl outcome)")
       (auto simp: after_render_def emit_simps set_phase_simps)
  have ph': "\<And>r. r \<noteq> rid \<Longrightarrow> phase_of ?g' r = phase_of g r"
    by (auto simp: after_render_def emit_simps phase_of_set_phase split: sum.splits)
  have phr: "phase_of ?g' rid = Some Returned \<or> phase_of ?g' rid = Some Failed"
    using lt by (auto simp: after_render_def emit_simps phase_of_set_phase split: sum.splits)
  show ?thesis
  proof (rule gate_inv_frame [OF inv log', where rid = rid])
    show "renders_gated (log g @ new)"
      by (rule renders_gated_append [OF gate_invD(4) [OF inv]]) (rule new)
    show "phase_of ?g' rid = Some IdleSeen \<Longrightarrow> gated rid (log g @ new)"
      using phr by auto
    show "phase_of ?g' rid = Some Acked \<or> phase_of ?g' rid = Some Polling \<Longrightarrow>
        ResolveCalled rid \<in> set (log g @ new)"
      using phr by auto
  qed (simp_all add: ph' new)
qed

lemma gate_inv_step:
  assumes inv: "gate_inv g"
  shows "gate_inv (step prog e g)"
proof (cases e)
  case (Machine v)
  then show ?thesis using inv by (simp add: gate_inv_def phase_of_def)
next
  case (Store ps)
  then show ?thesis using inv by (simp add: gate_inv_def phase_of_def)
qed (simp_all add: inv gate_inv_get_handler gate_inv_listener gate_inv_after_ack
      gate_inv_interval_callback gate_inv_after_idle gate_inv_after_render)

lemma gate_inv_run: "gate_inv g \<Longrightarrow> gate_inv (run prog es g)"
  by (induction es arbitrary: g) (simp_all add: gate_inv_step)

text \<open>
  C1. In every run of the route from its creation, whenever the log holds a call of
  \<open>renderHTML\<close> for a request, the part of the log before that call holds a call of the
  request's stored resolver by the listener and, after it, a read of the develop
  machine's state by the request that gave \<open>waiting\<close>; the request has not read the
  state again between that read and the render call. So an acknowledgment that arrives
  while the machine is busy does not let the render start: a read of \<open>waiting\<close> must follow.
\<close>

theorem render_only_after_ack_and_waiting:
  assumes "log (run prog es (initial_gate ps v)) = pre @ RenderHTML rid rq # post"
  shows "\<exists>A B C. pre = A @ ResolveCalled rid # B @ ReadState rid ''waiting'' # C \<and>
                 (\<forall>v'. ReadState rid v' \<notin> set C)"
proof -
  have "gate_inv (run prog es (initial_gate ps v))"
    by (rule gate_inv_run [OF gate_inv_initial])
  then have "renders_gated (log (run prog es (initial_gate ps v)))"
    by (simp add: gate_inv_def)
  with assms have "gated rid pre"
    unfolding renders_gated_def by blast
  then show ?thesis unfolding gated_def .
qed

theorem render_only_after_ack_and_waiting_witness:
  "log (run example_program about_until_render (initial_gate {''/about''} ''busy'')) =
     [Callback 0 ''DEVELOP_HTML_REQUEST_RECEIVED'', ResolveCalled 0,
      ReadState 0 ''busy'', SetInterval 0, ReadState 0 ''busy'',
      ReadState 0 ''waiting'', ClearInterval 0, ActivityStart 0] @
     RenderHTML 0 (render_request_of example_program ''/about'') # [] \<and>
   (\<exists>A B C. [Callback 0 ''DEVELOP_HTML_REQUEST_RECEIVED'', ResolveCalled 0,
      ReadState 0 ''busy'', SetInterval 0, ReadState 0 ''busy'',
      ReadState 0 ''waiting'', ClearInterval 0, ActivityStart 0] =
       A @ ResolveCalled 0 # B @ ReadState 0 ''waiting'' # C \<and>
       (\<forall>v'. ReadState 0 v' \<notin> set C))"
proof -
  have h: "log (run example_program about_until_render (initial_gate {''/about''} ''busy'')) =
     [Callback 0 ''DEVELOP_HTML_REQUEST_RECEIVED'', ResolveCalled 0,
      ReadState 0 ''busy'', SetInterval 0, ReadState 0 ''busy'',
      ReadState 0 ''waiting'', ClearInterval 0, ActivityStart 0] @
     RenderHTML 0 (render_request_of example_program ''/about'') # []"
    by code_simp
  from render_only_after_ack_and_waiting [OF h] h show ?thesis by blast
qed

text \<open>
  C2. The claim: every error thrown by the render call ends in an HTTP 500 page, and no
  failure leaves the handler. The code does not do this for an error whose stack is the
  line \<open>garbage\<close>: \<open>getPosition\<close> returns an undefined filename, \<open>parseError\<close> throws a
  \<open>TypeError\<close> on it inside the \<open>catch\<close> block, no response is written and the exception
  leaves the handler.
\<close>

theorem parseError_failure_escapes_handler:
  "parseError example_program garbage_error = Inl TypeError \<and>
   log (run example_program (about_until_render @ [Settle 0 (Inl garbage_error)])
          (initial_gate {''/about''} ''busy'')) =
     [Callback 0 ''DEVELOP_HTML_REQUEST_RECEIVED'', ResolveCalled 0,
      ReadState 0 ''busy'', SetInterval 0, ReadState 0 ''busy'',
      ReadState 0 ''waiting'', ClearInterval 0, ActivityStart 0,
      RenderHTML 0 (render_request_of example_program ''/about''),
      Escaped 0 TypeError]"
  by code_simp

text \<open>
  C8. The claim: the span started before the render call is ended on every path. The
  code does not end it when \<open>parseError\<close> throws: for the error with the stack \<open>garbage\<close>
  the span is started, the handler fails, and the span is never ended.
\<close>

theorem span_not_ended_when_parseError_throws:
  "phase_of (run example_program (about_until_render @ [Settle 0 (Inl garbage_error)])
          (initial_gate {''/about''} ''busy'')) 0 = Some Failed \<and>
   ActivityStart 0 \<in> set (log (run example_program (about_until_render @ [Settle 0 (Inl garbage_error)])
          (initial_gate {''/about''} ''busy''))) \<and>
   ActivityEnd 0 \<notin> set (log (run example_program (about_until_render @ [Settle 0 (Inl garbage_error)])
          (initial_gate {''/about''} ''busy'')))"
  by code_simp

lemma resolver_ok_initial: "resolver_ok (initial_gate ps v)"
  by (simp add: resolver_ok_def initial_gate_def)

lemma resolver_ok_emit:
  "resolver_ok g \<Longrightarrow> resolver_ok (emit as g)"
  by (auto simp: resolver_ok_def emit_simps split: option.splits)

lemma resolver_ok_set_phase:
  "resolver_ok g \<Longrightarrow> resolver_ok (set_phase rid ph g)"
  by (auto simp: resolver_ok_def set_phase_simps split: option.splits)

lemma resolver_ok_step:
  assumes "resolver_ok g"
  shows "resolver_ok (step prog e g)"
proof (cases e)
  case (Get p)
  then show ?thesis using assms
    by (auto simp: resolver_ok_def get_handler_def Let_def emit_simps is_Callback_def
        split: option.splits)
next
  case (Receive ty)
  then show ?thesis using assms
    by (auto simp: listener_def intro!: resolver_ok_emit resolver_ok_set_phase split: option.splits)
next
  case (Resume rid)
  then show ?thesis using assms
    by (auto simp: after_ack_def after_idle_def intro!: resolver_ok_emit resolver_ok_set_phase)
next
  case (Tick rid)
  then show ?thesis using assms
    by (auto simp: interval_callback_def intro!: resolver_ok_emit resolver_ok_set_phase)
next
  case (Settle rid outcome)
  then show ?thesis using assms
    by (auto simp: after_render_def intro!: resolver_ok_emit resolver_ok_set_phase split: sum.splits)
next
  case (Machine v)
  then show ?thesis using assms by (simp add: resolver_ok_def split: option.splits)
next
  case (Store ps)
  then show ?thesis using assms by (simp add: resolver_ok_def split: option.splits)
qed

lemma resolver_ok_run: "resolver_ok g \<Longrightarrow> resolver_ok (run prog es g)"
  by (induction es arbitrary: g) (simp_all add: resolver_ok_step)

lemma list_ex_not_all: "list_all (\<lambda>a. \<not> P a) xs \<Longrightarrow> list_ex P xs \<Longrightarrow> False"
  by (auto simp: list_all_iff list_ex_iff)

text \<open>
  C10. In every state the route can reach: if no request has stored a resolver yet (no
  request has signalled the state machine), the stored resolver is undefined and the
  listener, on an event of type \<open>SEND_DEVELOP_HTML_RESPONSES\<close>, calls it and throws a
  \<open>TypeError\<close>, changing nothing else; on an event of any other type the listener
  changes nothing: the stored resolver stays and no promise is resolved.
\<close>

theorem listener_without_resolver_throws_and_ignores_other_events:
  assumes reach: "g = run prog es (initial_gate ps v)"
  shows "(list_all (\<lambda>a. \<not> is_Callback a) (log g) \<longrightarrow>
            outsideResolve g = None \<and>
            step prog (Receive ''SEND_DEVELOP_HTML_RESPONSES'') g =
              g\<lparr>log := log g @ [ListenerThrew TypeError]\<rparr>) \<and>
         (ty \<noteq> ''SEND_DEVELOP_HTML_RESPONSES'' \<longrightarrow> step prog (Receive ty) g = g)"
proof (intro conjI impI)
  assume none: "list_all (\<lambda>a. \<not> is_Callback a) (log g)"
  have "resolver_ok g"
    unfolding reach by (rule resolver_ok_run [OF resolver_ok_initial])
  with none show r: "outsideResolve g = None"
    by (auto simp: resolver_ok_def dest: list_ex_not_all split: option.splits)
  show "step prog (Receive ''SEND_DEVELOP_HTML_RESPONSES'') g =
          g\<lparr>log := log g @ [ListenerThrew TypeError]\<rparr>"
    by (simp add: listener_def r emit_def)
next
  assume "ty \<noteq> ''SEND_DEVELOP_HTML_RESPONSES''"
  then show "step prog (Receive ty) g = g"
    by (simp add: listener_def)
qed

theorem listener_without_resolver_throws_and_ignores_other_events_witness:
  "list_all (\<lambda>a. \<not> is_Callback a) (log idle_gate) \<and>
   ''DEVELOP_HTML_REQUEST_RECEIVED'' \<noteq> ''SEND_DEVELOP_HTML_RESPONSES'' \<and>
   outsideResolve idle_gate = None \<and>
   step example_program (Receive ''SEND_DEVELOP_HTML_RESPONSES'') idle_gate =
     idle_gate\<lparr>log := log idle_gate @ [ListenerThrew TypeError]\<rparr> \<and>
   step example_program (Receive ''DEVELOP_HTML_REQUEST_RECEIVED'') idle_gate = idle_gate"
proof -
  have h1: "list_all (\<lambda>a. \<not> is_Callback a) (log idle_gate)"
    by code_simp
  have h2: "''DEVELOP_HTML_REQUEST_RECEIVED'' \<noteq> ''SEND_DEVELOP_HTML_RESPONSES''"
    by simp
  from listener_without_resolver_throws_and_ignores_other_events
         [OF idle_gate_def, of "''DEVELOP_HTML_REQUEST_RECEIVED''"] h1 h2
  show ?thesis by blast
qed

text \<open>A request that has returned and whose resolver is not the stored one stays silent.\<close>

lemma step_quiet:
  assumes ph: "phase_of g rid = Some Returned" and res: "outsideResolve g \<noteq> Some rid"
  shows "phase_of (step prog e g) rid = Some Returned \<and>
         outsideResolve (step prog e g) \<noteq> Some rid \<and>
         (\<exists>new. log (step prog e g) = log g @ new \<and>
                list_all (\<lambda>a. request_of a \<noteq> Some rid) new)"
proof -
  have lt: "rid < length (requests g)"
    by (rule phase_of_Some_less [OF ph])
  show ?thesis
  proof (cases e)
    case (Get p)
    then show ?thesis using ph res lt
      by (auto simp: get_handler_def Let_def emit_simps phase_of_def nth_append request_of_def)
  next
    case (Receive ty)
    then show ?thesis using ph res
      by (auto simp: listener_def emit_simps set_phase_simps phase_of_set_phase request_of_def
          split: option.splits)
  next
    case (Resume r)
    then show ?thesis using ph res
      by (auto simp: after_ack_def after_idle_def emit_simps set_phase_simps phase_of_set_phase
          request_of_def)
  next
    case (Tick r)
    then show ?thesis using ph res
      by (auto simp: interval_callback_def emit_simps set_phase_simps phase_of_set_phase
          request_of_def)
  next
    case (Settle r outcome)
    then show ?thesis using ph res
      by (auto simp: after_render_def emit_simps set_phase_simps phase_of_set_phase
          request_of_def split: sum.splits)
  next
    case (Machine v)
    then show ?thesis using ph res by (auto simp: phase_of_def split: if_splits)
  next
    case (Store ps)
    then show ?thesis using ph res by (auto simp: phase_of_def split: if_splits)
  qed
qed

lemma run_quiet:
  assumes "phase_of g rid = Some Returned" and "outsideResolve g \<noteq> Some rid"
  shows "\<exists>rest. log (run prog es g) = log g @ rest \<and>
                list_all (\<lambda>a. request_of a \<noteq> Some rid) rest"
  using assms
proof (induction es arbitrary: g)
  case Nil
  then show ?case by simp
next
  case (Cons e es)
  from step_quiet [OF Cons.prems, of prog e] obtain new where
    ph: "phase_of (step prog e g) rid = Some Returned" and
    res: "outsideResolve (step prog e g) \<noteq> Some rid" and
    new: "log (step prog e g) = log g @ new" "list_all (\<lambda>a. request_of a \<noteq> Some rid) new"
    by blast
  from Cons.IH [OF ph res] obtain rest where
    rest: "log (run prog es (step prog e g)) = log (step prog e g) @ rest"
      "list_all (\<lambda>a. request_of a \<noteq> Some rid) rest"
    by blast
  have "log (run prog (e # es) g) = log g @ (new @ rest)"
    using rest(1) new(1) by simp
  moreover have "list_all (\<lambda>a. request_of a \<noteq> Some rid) (new @ rest)"
    using new(2) rest(2) by simp
  ultimately show ?case by blast
qed

text \<open>
  C9. In every state the route can reach, a request for a path that is not in the page
  registry calls \<open>next ()\<close> and returns: nothing else is added to the log (no response,
  no signal to the state machine), the stored resolver is unchanged, and whatever
  happens afterwards the log gets no further entry of this request: no render call, no
  response, no call of a resolver of it.
\<close>

theorem unregistered_path_passes_through:
  assumes reach: "g = run prog es0 (initial_gate ps v)"
    and unregistered: "req_path \<notin> pages g"
  shows "step prog (Get req_path) g =
           g\<lparr>requests := requests g @ [(req_path, Returned)],
             log := log g @ [Next (length (requests g))]\<rparr> \<and>
         outsideResolve (step prog (Get req_path) g) = outsideResolve g \<and>
         (\<exists>rest. log (run prog es (step prog (Get req_path) g)) =
                   log g @ Next (length (requests g)) # rest \<and>
                 list_all (\<lambda>a. request_of a \<noteq> Some (length (requests g))) rest)"
proof -
  let ?rid = "length (requests g)"
  let ?g1 = "step prog (Get req_path) g"
  have g1: "?g1 = g\<lparr>requests := requests g @ [(req_path, Returned)], log := log g @ [Next ?rid]\<rparr>"
    using unregistered by (simp add: get_handler_def Let_def emit_def)
  have "resolver_ok g"
    unfolding reach by (rule resolver_ok_run [OF resolver_ok_initial])
  then have "outsideResolve g \<noteq> Some ?rid"
    by (auto simp: resolver_ok_def split: option.splits)
  moreover have same: "outsideResolve ?g1 = outsideResolve g"
    by (subst g1) simp
  ultimately have res: "outsideResolve ?g1 \<noteq> Some ?rid"
    by simp
  have ph: "phase_of ?g1 ?rid = Some Returned"
    by (subst g1) (simp add: phase_of_def)
  from run_quiet [OF ph res, of prog es] obtain rest where
    "log (run prog es ?g1) = log ?g1 @ rest" "list_all (\<lambda>a. request_of a \<noteq> Some ?rid) rest"
    by blast
  moreover have "log ?g1 = log g @ [Next ?rid]"
    by (subst g1) simp
  ultimately have "log (run prog es ?g1) = log g @ Next ?rid # rest \<and>
      list_all (\<lambda>a. request_of a \<noteq> Some ?rid) rest"
    by simp
  then show ?thesis using g1 same by blast
qed

theorem unregistered_path_passes_through_witness:
  "''/nope'' \<notin> pages rendering_gate \<and>
   step example_program (Get ''/nope'') rendering_gate =
     rendering_gate\<lparr>requests := requests rendering_gate @ [(''/nope'', Returned)],
                    log := log rendering_gate @ [Next (length (requests rendering_gate))]\<rparr> \<and>
   outsideResolve (step example_program (Get ''/nope'') rendering_gate) =
     outsideResolve rendering_gate \<and>
   (\<exists>rest. log (run example_program
                  [Receive ''SEND_DEVELOP_HTML_RESPONSES'', Resume 1, Tick 1,
                   Settle 0 (Inr [''<html>About</html>''])]
                  (step example_program (Get ''/nope'') rendering_gate)) =
             log rendering_gate @ Next (length (requests rendering_gate)) # rest \<and>
           list_all (\<lambda>a. request_of a \<noteq> Some (length (requests rendering_gate))) rest)"
proof -
  have h: "''/nope'' \<notin> pages rendering_gate"
    by code_simp
  from unregistered_path_passes_through [OF rendering_gate_def h,
      of "[Receive ''SEND_DEVELOP_HTML_RESPONSES'', Resume 1, Tick 1,
           Settle 0 (Inr [''<html>About</html>''])]"] h
  show ?thesis by blast
qed

end
